theory Spec2Isabelle
  imports Complex_Main "HOL-Library.Word" "HOL-Library.Multiset" "HOL-Library.Char_ord"
    "HOL-Library.List_Lexorder" "HOL-Library.Monad_Syntax"
begin

section \<open>The word-frequency counter (no\_ai\_practice/words\_frequency.cpp)\<close>

subsection \<open>Characters: the classification functions of the C library\<close>

text \<open>
  A \<open>std::string\<close> is a sequence of bytes, here a \<^typ>\<open>string\<close>. The lambdas of \<open>parse\<close> take
  their argument as \<open>unsigned char\<close>, so a character is classified by its value in 0..255.
  The program never changes the locale, so \<open>std::ispunct\<close>, \<open>std::tolower\<close> and the
  whitespace test of \<open>operator>>\<close> are those of the "C" locale. They are library code, not
  code of the repository; the three definitions below write out the "C" locale tables.
\<close>

definition code :: "char \<Rightarrow> nat" where
  "code c = of_char c"

definition isspace :: "char \<Rightarrow> bool" where
  "isspace c = (code c = 32 \<or> (9 \<le> code c \<and> code c \<le> 13))"

definition ispunct :: "char \<Rightarrow> bool" where
  "ispunct c = ((33 \<le> code c \<and> code c \<le> 47) \<or> (58 \<le> code c \<and> code c \<le> 64)
     \<or> (91 \<le> code c \<and> code c \<le> 96) \<or> (123 \<le> code c \<and> code c \<le> 126))"

definition tolower :: "char \<Rightarrow> char" where
  "tolower c = (if 65 \<le> code c \<and> code c \<le> 90 then char_of (code c + 32) else c)"

subsection \<open>The map of counts\<close>

text \<open>
  \<open>std::unordered_map<std::string, int>\<close>: a finite map from words to C++ \<open>int\<close>s. An \<open>int\<close>
  is a 32-bit two's complement value: \<^typ>\<open>32 word\<close>, read by \<^const>\<open>sint\<close>. The addition of
  the model wraps around, as the compiled \<open>+= 1\<close> does (the C++ standard leaves the overflow
  undefined); the claims below say where that matters.
\<close>

type_synonym cxx_int = "32 word"
type_synonym counts = "string \<rightharpoonup> cxx_int"

text \<open>\<open>map[word] += 1\<close>: \<open>operator[]\<close> inserts the value 0 for a missing key, then one is added.\<close>

definition subscript :: "counts \<Rightarrow> string \<Rightarrow> cxx_int" where
  "subscript m k = (case m k of None \<Rightarrow> 0 | Some v \<Rightarrow> v)"

definition increment :: "counts \<Rightarrow> string \<Rightarrow> counts" where
  "increment m k = m(k \<mapsto> subscript m k + 1)"

subsection \<open>parse\<close>

text \<open>
  Line 48, the erase-remove idiom: \<open>std::remove_if\<close> moves the characters that fail the
  predicate to the front, in order, and \<open>erase\<close> cuts the rest off.
\<close>

fun remove_if :: "(char \<Rightarrow> bool) \<Rightarrow> string \<Rightarrow> string" where
  "remove_if p [] = []"
| "remove_if p (c # cs) = (if p c then remove_if p cs else c # remove_if p cs)"

text \<open>Line 49, \<open>std::transform\<close> of the word onto itself.\<close>

fun transform :: "(char \<Rightarrow> char) \<Rightarrow> string \<Rightarrow> string" where
  "transform f [] = []"
| "transform f (c # cs) = f c # transform f cs"

text \<open>Lines 48 and 49 together: what becomes of \<open>word\<close> before it is used as the key.\<close>

definition normalize_word :: "string \<Rightarrow> string" where
  "normalize_word word = transform tolower (remove_if ispunct word)"

text \<open>
  \<open>ss >> word\<close> on the unread rest of the stream: skip leading whitespace, then take
  characters up to the next whitespace or the end. When no character is taken the
  extraction fails (\<open>None\<close>) and the \<open>while\<close> loop ends; otherwise the word and the new
  unread rest are returned.
\<close>

definition get_word :: "string \<Rightarrow> (string \<times> string) option" where
  "get_word s =
     (let s1 = dropWhile isspace s;
          word = takeWhile (\<lambda>c. \<not> isspace c) s1;
          rest = dropWhile (\<lambda>c. \<not> isspace c) s1
      in if word = [] then None else Some (word, rest))"

lemma get_word_shorter: "get_word s = Some (word, rest) \<Longrightarrow> length rest < length s"
proof -
  assume a: "get_word s = Some (word, rest)"
  let ?s1 = "dropWhile isspace s"
  from a have w: "takeWhile (\<lambda>c. \<not> isspace c) ?s1 \<noteq> []"
    and r: "rest = dropWhile (\<lambda>c. \<not> isspace c) ?s1"
    by (auto simp: get_word_def Let_def split: if_splits)
  have "length (takeWhile (\<lambda>c. \<not> isspace c) ?s1) + length rest = length ?s1"
    unfolding r by (metis length_append takeWhile_dropWhile_id)
  moreover from w have "0 < length (takeWhile (\<lambda>c. \<not> isspace c) ?s1)" by simp
  moreover have "length ?s1 \<le> length s" by (rule length_dropWhile_le)
  ultimately show ?thesis by linarith
qed

text \<open>The \<open>while\<close> loop of \<open>parse\<close>; the map is passed by reference in the source and returned here.\<close>

function parse :: "counts \<Rightarrow> string \<Rightarrow> counts" where
  "parse m text =
     (case get_word text of
        None \<Rightarrow> m
      | Some (word, rest) \<Rightarrow> parse (increment m (normalize_word word)) rest)"
  by pat_completeness auto
termination
  by (relation "measure (\<lambda>(m, text). length text)") (auto dest: get_word_shorter)

declare parse.simps [simp del]

subsection \<open>read\_file\<close>

text \<open>
  The file system, as far as the program sees it: the paths that open for reading, each
  with its file. A path outside the domain is one that \<open>std::ifstream\<close> cannot open. A file
  has its bytes, and it can be sought or not: a regular file can; a directory, a pipe or
  a terminal opens for reading as well, but a seek on it fails.
\<close>

record fs_file =
  seekable :: bool
  content :: string

type_synonym filesystem = "string \<rightharpoonup> fs_file"

text \<open>A regular file with the given bytes.\<close>

definition regular_file :: "string \<Rightarrow> fs_file" where
  "regular_file s = \<lparr>seekable = True, content = s\<rparr>"

text \<open>
  The exceptions that leave \<open>read_file\<close>: the \<open>std::runtime_error\<close> of line 32, with its
  message, and the \<open>std::length_error\<close> that \<open>std::string::resize\<close> throws.
\<close>

datatype exception = Runtime_error string | Length_error

text \<open>
  The stream object: its fail state, whether the file behind it can be sought, the bytes
  of the file and the get position.
\<close>

record ifstream =
  failed :: bool
  can_seek :: bool
  bytes :: string
  gpos :: nat

definition ifstream_open :: "filesystem \<Rightarrow> string \<Rightarrow> ifstream" where
  "ifstream_open fs path =
     (case fs path of
        None \<Rightarrow> \<lparr>failed = True, can_seek = False, bytes = [], gpos = 0\<rparr>
      | Some f \<Rightarrow> \<lparr>failed = False, can_seek = seekable f, bytes = content f, gpos = 0\<rparr>)"

text \<open>
  \<open>seekg\<close> does nothing on a stream that has failed, and a seek that the file refuses
  sets the fail state.
\<close>

definition seekg_end :: "ifstream \<Rightarrow> ifstream" where
  "seekg_end file =
     (if failed file then file
      else if can_seek file then file\<lparr>gpos := length (bytes file)\<rparr>
      else file\<lparr>failed := True\<rparr>)"

definition seekg_beg :: "ifstream \<Rightarrow> ifstream" where
  "seekg_beg file =
     (if failed file then file
      else if can_seek file then file\<lparr>gpos := 0\<rparr>
      else file\<lparr>failed := True\<rparr>)"

text \<open>\<open>tellg\<close> is the get position, and \<open>-1\<close> on a stream that has failed.\<close>

definition tellg :: "ifstream \<Rightarrow> int" where
  "tellg file = (if failed file then - 1 else int (gpos file))"

text \<open>\<open>static_cast<size_t>\<close> of a stream position: its value modulo \<open>2^64\<close>.\<close>

definition static_cast_size_t :: "int \<Rightarrow> nat" where
  "static_cast_size_t k = nat (k mod 2 ^ 64)"

text \<open>
  The longest string the library makes, \<open>std::string::max_size()\<close>. The value is that of
  libstdc++ on a 64-bit machine; what the results below use is that it is less than
  \<open>2^64 - 1\<close>, the value of \<open>static_cast<size_t>(-1)\<close>.
\<close>

definition max_size :: nat where
  "max_size = 2 ^ 62 - 1"

text \<open>
  \<open>data.resize(n)\<close>: cut to \<open>n\<close> characters, or fill up to \<open>n\<close> with NUL characters; a length
  beyond \<open>max_size()\<close> is refused with \<open>std::length_error\<close>. (Memory is not part of the
  model: an allocation never fails.)
\<close>

definition resize :: "string \<Rightarrow> nat \<Rightarrow> exception + string" where
  "resize data n =
     (if max_size < n then Inl Length_error
      else Inr (take n data @ replicate (n - length data) (CHR 0x00)))"

text \<open>
  \<open>file.read(&data[0], n)\<close>: copy up to \<open>n\<close> bytes, as many as the file still has from the get
  position on, over the front of the buffer; the stream advances by as many. A stream that
  has failed reads nothing.
\<close>

definition read :: "ifstream \<Rightarrow> string \<Rightarrow> nat \<Rightarrow> ifstream \<times> string" where
  "read file data n =
     (if failed file then (file, data)
      else
        let got = take n (drop (gpos file) (bytes file))
        in (file\<lparr>gpos := gpos file + length got\<rparr>, got @ drop (length got) data))"

text \<open>
  Lines 30 to 41. The only check is the one after the opening; nothing looks at the
  stream after \<open>seekg\<close> and \<open>tellg\<close>, so the \<open>-1\<close> of a failed \<open>tellg\<close> goes to \<open>resize\<close> as
  \<open>2^64 - 1\<close>, and the exception of \<open>resize\<close> leaves \<open>read_file\<close>.
\<close>

definition read_file :: "filesystem \<Rightarrow> string \<Rightarrow> exception + string" where
  "read_file fs path =
     (let file = ifstream_open fs path
      in if failed file then Inl (Runtime_error ''cannot open file'')
         else
           let file = seekg_end file
           in case resize [] (static_cast_size_t (tellg file)) of
                Inl e \<Rightarrow> Inl e
              | Inr data \<Rightarrow>
                  let file = seekg_beg file;
                      (file, data) = read file data (length data)
                  in Inr data)"

subsection \<open>main: sorting and printing\<close>

type_synonym entry = "string \<times> cxx_int"

text \<open>
  The comparator of line 66. \<open>a.second > b.second\<close> compares two \<open>int\<close>s, so as signed values;
  \<open>a.first < b.first\<close> is the order of \<open>std::string\<close>: lexicographic on the characters as
  unsigned bytes, which is the order of \<^typ>\<open>string\<close> here.
\<close>

definition comparator :: "entry \<Rightarrow> entry \<Rightarrow> bool" where
  "comparator a b = (if snd a \<noteq> snd b then sint (snd a) > sint (snd b) else fst a < fst b)"

text \<open>
  \<open>std::sort\<close> is library code. The standard promises a permutation of the range in which no
  element is ordered before its predecessor by the comparator; the model is insertion
  sort. For the comparator above and entries with distinct words there is only one such
  permutation (lemma \<open>sorted_permutation_unique\<close>), so the choice of algorithm is immaterial.
\<close>

fun insert_by :: "('a \<Rightarrow> 'a \<Rightarrow> bool) \<Rightarrow> 'a \<Rightarrow> 'a list \<Rightarrow> 'a list" where
  "insert_by lt x [] = [x]"
| "insert_by lt x (y # ys) = (if lt x y then x # y # ys else y # insert_by lt x ys)"

fun std_sort :: "('a \<Rightarrow> 'a \<Rightarrow> bool) \<Rightarrow> 'a list \<Rightarrow> 'a list" where
  "std_sort lt [] = []"
| "std_sort lt (x # xs) = insert_by lt x (std_sort lt xs)"

text \<open>
  \<open>vec(map.begin(), map.end())\<close> copies the entries of the map in the order in which the
  \<open>unordered_map\<close> iterates over them, which is unspecified: any list that holds every entry
  of the map once.
\<close>

definition iteration_of :: "counts \<Rightarrow> entry list \<Rightarrow> bool" where
  "iteration_of m vec = (distinct vec \<and> set vec = Map.graph m)"

definition input_path :: string where
  "input_path = ''./words_frequency_test_file.txt''"

text \<open>
  A run of \<open>main\<close> on a file system and what it ends with: the exception that leaves \<open>main\<close>
  (it catches none), or the sequence of entries it prints, one line \<open>word: count\<close> each. The
  iteration order of the map is the only choice in a run. (\<open>map.reserve\<close> of lines 58 and 59
  sets the capacity of the map, not its contents.)
\<close>

inductive main :: "filesystem \<Rightarrow> exception + entry list \<Rightarrow> bool" where
  throws: "read_file fs input_path = Inl e \<Longrightarrow> main fs (Inl e)"
| prints: "read_file fs input_path = Inr text \<Longrightarrow> iteration_of (parse Map.empty text) vec
     \<Longrightarrow> main fs (Inr (std_sort comparator vec))"

subsection \<open>The words of the specification\<close>

text \<open>
  The whitespace-separated tokens of a text, defined without the stream: the text is cut
  at every whitespace character and the empty pieces are dropped.
\<close>

fun pieces :: "string \<Rightarrow> string list" where
  "pieces [] = [[]]"
| "pieces (c # cs) =
     (if isspace c then [] # pieces cs
      else (case pieces cs of p # ps \<Rightarrow> (c # p) # ps | [] \<Rightarrow> [[c]]))"

definition tokens :: "string \<Rightarrow> string list" where
  "tokens text = filter (\<lambda>p. p \<noteq> []) (pieces text)"

definition strip_punctuation :: "string \<Rightarrow> string" where
  "strip_punctuation w = filter (\<lambda>c. \<not> ispunct c) w"

definition lowercase :: "string \<Rightarrow> string" where
  "lowercase w = map tolower w"

text \<open>The number of tokens of the text whose normalization is the word \<open>w\<close>.\<close>

definition occurrences :: "string \<Rightarrow> string \<Rightarrow> nat" where
  "occurrences w text = length (filter (\<lambda>t. lowercase (strip_punctuation t) = w) (tokens text))"

text \<open>The count the map holds for a word, as a number; 0 when the word is not a key.\<close>

definition count_of :: "counts \<Rightarrow> string \<Rightarrow> int" where
  "count_of m w = (case m w of None \<Rightarrow> 0 | Some v \<Rightarrow> sint v)"

section \<open>Two threads and a mutex (multithreading/example1.cpp)\<close>

text \<open>
  \<open>main\<close> starts two threads that both run \<open>addMoney\<close> and joins them. A thread is at one of
  five places of \<open>addMoney\<close>: before \<open>m.lock()\<close>; holding the mutex, before \<open>++myAmount\<close>;
  having read \<open>myAmount\<close> (with the value read), before writing the sum back; having
  written, before \<open>m.unlock()\<close>; and returned. The increment is two steps, a read and a
  write, so that nothing but the mutex keeps the threads from interfering. The counter
  stays between 0 and 2, far from the limits of an \<open>int\<close>, and is an \<^typ>\<open>int\<close> here.
\<close>

datatype thread = T1 | T2

datatype place = Before_lock | Holding | Read_value int | Written | Returned

record shared =
  myAmount :: int
  owner :: "thread option"
  place_of :: "thread \<Rightarrow> place"

definition initial :: shared where
  "initial = \<lparr>myAmount = 0, owner = None, place_of = (\<lambda>t. Before_lock)\<rparr>"

text \<open>
  One step of one thread running \<open>addMoney\<close>; the scheduler may pick any thread that can
  move. \<open>m.lock()\<close> can only be passed while no thread owns the mutex. The interleavings of
  these steps are the executions of the program: every access to \<open>myAmount\<close> is made
  between \<open>lock\<close> and \<open>unlock\<close>, so the program has no data race.
\<close>

inductive step :: "shared \<Rightarrow> shared \<Rightarrow> bool" where
  lock: "place_of s t = Before_lock \<Longrightarrow> owner s = None
     \<Longrightarrow> step s (s\<lparr>owner := Some t, place_of := (place_of s)(t := Holding)\<rparr>)"
| load: "place_of s t = Holding \<Longrightarrow> step s (s\<lparr>place_of := (place_of s)(t := Read_value (myAmount s))\<rparr>)"
| store: "place_of s t = Read_value v
     \<Longrightarrow> step s (s\<lparr>myAmount := v + 1, place_of := (place_of s)(t := Written)\<rparr>)"
| unlock: "place_of s t = Written \<Longrightarrow> step s (s\<lparr>owner := None, place_of := (place_of s)(t := Returned)\<rparr>)"

definition reachable :: "shared \<Rightarrow> bool" where
  "reachable s = step\<^sup>*\<^sup>* initial s"

text \<open>Both \<open>join\<close>s of \<open>main\<close> have returned when both threads have.\<close>

definition joined :: "shared \<Rightarrow> bool" where
  "joined s = (place_of s T1 = Returned \<and> place_of s T2 = Returned)"

text \<open>Whether a thread at this place is inside the critical section.\<close>

fun critical :: "place \<Rightarrow> bool" where
  "critical Holding = True"
| "critical (Read_value v) = True"
| "critical Written = True"
| "critical p = False"

text \<open>How many times a thread at this place has incremented the counter.\<close>

fun increments :: "place \<Rightarrow> int" where
  "increments Written = 1"
| "increments Returned = 1"
| "increments p = 0"

text \<open>The number of steps a thread at this place still has to take.\<close>

fun remaining :: "place \<Rightarrow> nat" where
  "remaining Before_lock = 4"
| "remaining Holding = 3"
| "remaining (Read_value v) = 2"
| "remaining Written = 1"
| "remaining Returned = 0"

definition steps_left :: "shared \<Rightarrow> nat" where
  "steps_left s = remaining (place_of s T1) + remaining (place_of s T2)"

text \<open>
  What holds in every state the two threads can reach: a thread owns the mutex exactly
  while it is in the critical section; a value read is still the value of the counter when
  it is written back; and the counter is the number of increments done.
\<close>

definition invariant :: "shared \<Rightarrow> bool" where
  "invariant s =
     ((\<forall>t. (owner s = Some t) = critical (place_of s t))
      \<and> (\<forall>t v. place_of s t = Read_value v \<longrightarrow> v = myAmount s)
      \<and> myAmount s = increments (place_of s T1) + increments (place_of s T2))"

section \<open>The filter of zero values (Examn\_objective/Sendthis/Task1/CsvInOut.cpp)\<close>

text \<open>
  \<open>Array\<close> is a vector of vectors of \<open>double\<close>. \<open>FilterData\<close> does three things with a
  \<open>double\<close>: it compares it with zero, it compares two of them with \<open><\<close> and it takes the
  mean of two. The model is given these three operations and works for any type of cells,
  so what is proved holds for the floating-point operations too.
\<close>

record 'a double_ops =
  is_zero :: "'a \<Rightarrow> bool"
  less_than :: "'a \<Rightarrow> 'a \<Rightarrow> bool"
  mean :: "'a \<Rightarrow> 'a \<Rightarrow> 'a"

type_synonym 'a Array = "'a list list"

text \<open>
  \<open>operator[]\<close> of \<open>std::vector\<close> does not check its index, and an index outside the vector
  is undefined behaviour. In the model such an access yields \<open>None\<close>, and so does every
  computation that contains one.
\<close>

definition index :: "'a list \<Rightarrow> nat \<Rightarrow> 'a option" where
  "index xs i = (if i < length xs then Some (xs ! i) else None)"

definition assign :: "'a list \<Rightarrow> nat \<Rightarrow> 'a \<Rightarrow> 'a list option" where
  "assign xs i v = (if i < length xs then Some (xs[i := v]) else None)"

text \<open>Lines 85 to 93: the cells of the window, and the positions of those that are zero.\<close>

fun collect :: "'a double_ops \<Rightarrow> 'a Array \<Rightarrow> (nat \<times> nat) list
    \<Rightarrow> (nat \<times> nat) list \<times> 'a list \<Rightarrow> ((nat \<times> nat) list \<times> 'a list) option" where
  "collect ops FData [] (ZStack, Window) = Some (ZStack, Window)"
| "collect ops FData ((m, n) # rest) (ZStack, Window) =
     do {
       row \<leftarrow> index FData m;
       v \<leftarrow> index row n;
       collect ops FData rest
         (if is_zero ops v then ZStack @ [(m, n)] else ZStack, Window @ [v])
     }"

text \<open>Lines 100 to 103: the index \<open>min\<close> (here \<open>imin\<close>) of the least element from \<open>e\<close> on.\<close>

fun least_from :: "'a double_ops \<Rightarrow> 'a list \<Rightarrow> nat \<Rightarrow> nat list \<Rightarrow> nat option" where
  "least_from ops Window imin [] = Some imin"
| "least_from ops Window imin (k # ks) =
     do {
       wk \<leftarrow> index Window k;
       wmin \<leftarrow> index Window imin;
       least_from ops Window (if less_than ops wk wmin then k else imin) ks
     }"

text \<open>Lines 98 to 107: selection sort of the positions 0 to \<open>mid\<close>, \<open>mid\<close> included.\<close>

fun sort_front :: "'a double_ops \<Rightarrow> 'a list \<Rightarrow> nat list \<Rightarrow> 'a list option" where
  "sort_front ops Window [] = Some Window"
| "sort_front ops Window (e # es) =
     do {
       imin \<leftarrow> least_from ops Window e [e + 1 ..< length Window];
       temp \<leftarrow> index Window e;
       wmin \<leftarrow> index Window imin;
       Window \<leftarrow> assign Window e wmin;
       Window \<leftarrow> assign Window imin temp;
       sort_front ops Window es
     }"

text \<open>Lines 110 to 116. With \<open>mid = 0\<close> the index \<open>mid - 1\<close> is \<open>-1\<close>, outside the vector.\<close>

definition median :: "'a double_ops \<Rightarrow> 'a list \<Rightarrow> nat \<Rightarrow> 'a option" where
  "median ops Window mid =
     (if length Window mod 2 \<noteq> 0 then index Window mid
      else if mid = 0 then None
      else do {
        a \<leftarrow> index Window (mid - 1);
        b \<leftarrow> index Window mid;
        Some (mean ops a b)
      })"

text \<open>Lines 121 and 122: every position on the stack gets the median.\<close>

fun replace :: "'a Array \<Rightarrow> (nat \<times> nat) list \<Rightarrow> 'a \<Rightarrow> 'a Array option" where
  "replace FData [] MedValue = Some FData"
| "replace FData ((m, n) # ZStack) MedValue =
     do {
       row \<leftarrow> index FData m;
       row \<leftarrow> assign row n MedValue;
       FData \<leftarrow> assign FData m row;
       replace FData ZStack MedValue
     }"

text \<open>The body of the general loop, lines 74 to 125, for the cell \<open>(i, j)\<close>.\<close>

definition filter_cell :: "'a double_ops \<Rightarrow> 'a Array \<Rightarrow> nat \<times> nat \<Rightarrow> 'a Array option" where
  "filter_cell ops FData ij =
     (case ij of (i, j) \<Rightarrow>
       do {
         row \<leftarrow> index FData i;
         let MaxM = (if i + 2 < length FData then i + 2 else length FData);
         let MinM = (if 1 \<le> i then i - 1 else 0);
         let MaxN = (if j + 2 < length row then j + 2 else length row);
         let MinN = (if 1 \<le> j then j - 1 else 0);
         (ZStack, Window) \<leftarrow>
           collect ops FData (List.product [MinM ..< MaxM] [MinN ..< MaxN]) ([], []);
         let mid = (length Window + 1) div 2;
         Window \<leftarrow> sort_front ops Window [0 ..< mid + 1];
         MedValue \<leftarrow> median ops Window mid;
         if ZStack \<noteq> [] then replace FData ZStack MedValue else Some FData
       })"

text \<open>
  The general loop, lines 71 and 72. No vector of \<open>FData\<close> ever changes its size, so the
  cells the two \<open>for\<close> loops visit are those of \<open>Data\<close>, row by row.
\<close>

fun general_loop :: "'a double_ops \<Rightarrow> 'a Array \<Rightarrow> (nat \<times> nat) list \<Rightarrow> 'a Array option" where
  "general_loop ops FData [] = Some FData"
| "general_loop ops FData (ij # rest) =
     do {
       FData \<leftarrow> filter_cell ops FData ij;
       general_loop ops FData rest
     }"

definition cells :: "'a Array \<Rightarrow> (nat \<times> nat) list" where
  "cells Data = concat (map (\<lambda>i. map (\<lambda>j. (i, j)) [0 ..< length (Data ! i)]) [0 ..< length Data])"

definition FilterData :: "'a double_ops \<Rightarrow> 'a Array \<Rightarrow> 'a Array option" where
  "FilterData ops Data = general_loop ops Data (cells Data)"

text \<open>
  For the values that a file of small whole numbers holds, the operations on \<open>double\<close> are
  exact and are those of the real numbers.
\<close>

definition exact_ops :: "real double_ops" where
  "exact_ops = \<lparr>is_zero = (\<lambda>x. x = 0), less_than = (\<lambda>x y. x < y), mean = (\<lambda>x y. (x + y) / 2)\<rparr>"

text \<open>
  The frame of the filter: \<open>FData\<close> has the dimensions of \<open>Data\<close> and agrees with it wherever
  \<open>Data\<close> is not zero.
\<close>

definition frame :: "'a double_ops \<Rightarrow> 'a Array \<Rightarrow> 'a Array \<Rightarrow> bool" where
  "frame ops Data FData =
     (length FData = length Data
      \<and> (\<forall>i < length Data. length (FData ! i) = length (Data ! i)
           \<and> (\<forall>j < length (Data ! i). \<not> is_zero ops (Data ! i ! j) \<longrightarrow> FData ! i ! j = Data ! i ! j)))"

text \<open>Every position on the stack is a position of \<open>Data\<close> that holds zero.\<close>

definition zeros_of :: "'a double_ops \<Rightarrow> 'a Array \<Rightarrow> (nat \<times> nat) list \<Rightarrow> bool" where
  "zeros_of ops Data ZStack =
     (\<forall>(m, n) \<in> set ZStack. m < length Data \<and> n < length (Data ! m) \<and> is_zero ops (Data ! m ! n))"

text \<open>All rows have the length \<open>c\<close>.\<close>

definition rectangular :: "'a Array \<Rightarrow> nat \<Rightarrow> bool" where
  "rectangular Data c = (\<forall>i < length Data. length (Data ! i) = c)"

section \<open>Properties of the word-frequency counter\<close>

subsection \<open>The steps of parse and the words of the specification agree\<close>

lemma remove_if_filter: "remove_if p w = filter (\<lambda>c. \<not> p c) w"
  by (induction w) simp_all

lemma transform_map: "transform f w = map f w"
  by (induction w) simp_all

lemma normalize_word_eq: "normalize_word w = lowercase (strip_punctuation w)"
  by (simp add: normalize_word_def lowercase_def strip_punctuation_def remove_if_filter transform_map)

lemma pieces_not_Nil: "pieces s \<noteq> []"
  by (induction s) (auto split: list.splits)

lemma hd_pieces: "hd (pieces s) = takeWhile (\<lambda>c. \<not> isspace c) s"
  using pieces_not_Nil by (induction s) (auto split: list.splits)

lemma tl_pieces:
  "filter (\<lambda>p. p \<noteq> []) (tl (pieces s)) = tokens (dropWhile (\<lambda>c. \<not> isspace c) s)"
  using pieces_not_Nil by (induction s) (auto simp: tokens_def split: list.splits)

lemma tokens_Nil: "tokens [] = []"
  by (simp add: tokens_def)

lemma tokens_space: "isspace c \<Longrightarrow> tokens (c # s) = tokens s"
  by (simp add: tokens_def)

lemma tokens_word_space:
  "\<not> isspace c \<Longrightarrow> isspace d \<Longrightarrow> tokens (c # d # s) = [c] # tokens s"
  by (simp add: tokens_def)

lemma tokens_dropWhile: "tokens (dropWhile isspace s) = tokens s"
  by (induction s) (simp_all add: tokens_space)

lemma tokens_pieces:
  "tokens s = filter (\<lambda>p. p \<noteq> []) [hd (pieces s)] @ filter (\<lambda>p. p \<noteq> []) (tl (pieces s))"
  using pieces_not_Nil [of s] by (cases "pieces s") (simp_all add: tokens_def)

text \<open>The loop ends exactly when the text has no token left.\<close>

lemma get_word_None: "get_word s = None \<Longrightarrow> tokens s = []"
proof -
  assume a: "get_word s = None"
  let ?s1 = "dropWhile isspace s"
  from a have e: "takeWhile (\<lambda>c. \<not> isspace c) ?s1 = []"
    by (simp add: get_word_def Let_def split: if_splits)
  have "?s1 = []"
  proof (rule ccontr)
    assume n: "?s1 \<noteq> []"
    then obtain c cs where eq: "?s1 = c # cs" by (cases ?s1) auto
    from n have "\<not> isspace (hd ?s1)" by (rule hd_dropWhile)
    with eq have "\<not> isspace c" by simp
    with e eq show False by simp
  qed
  then have "tokens ?s1 = tokens []" by (rule arg_cong)
  then have "tokens ?s1 = []" by (simp only: tokens_Nil)
  then show ?thesis by (simp only: tokens_dropWhile)
qed

text \<open>Each extraction takes the first token and leaves a text with the other tokens.\<close>

lemma get_word_Some: "get_word s = Some (w, rest) \<Longrightarrow> tokens s = w # tokens rest"
proof -
  assume a: "get_word s = Some (w, rest)"
  let ?s1 = "dropWhile isspace s"
  from a have w: "w = takeWhile (\<lambda>c. \<not> isspace c) ?s1" and ne: "w \<noteq> []"
    and r: "rest = dropWhile (\<lambda>c. \<not> isspace c) ?s1"
    by (auto simp: get_word_def Let_def split: if_splits)
  have "tokens ?s1 = w # tokens rest"
    using ne by (simp add: tokens_pieces [of ?s1] hd_pieces tl_pieces w r)
  then show ?thesis by (simp add: tokens_dropWhile)
qed

lemma parse_foldl: "parse m s = foldl increment m (map normalize_word (tokens s))"
proof (induction m s rule: parse.induct)
  case (1 m s)
  show ?case
  proof (cases "get_word s")
    case None
    then show ?thesis by (simp add: parse.simps [of m s] get_word_None)
  next
    case (Some p)
    obtain w rest where p: "p = (w, rest)" by (cases p)
    with Some 1 show ?thesis
      by (simp add: parse.simps [of m s] get_word_Some)
  qed
qed

lemma increment_apply: "increment m k w = (if w = k then Some (subscript m k + 1) else m w)"
  by (simp add: increment_def)

lemma subscript_increment:
  "subscript (increment m k) w = (if w = k then subscript m k + 1 else subscript m w)"
  by (simp add: increment_def subscript_def)

lemma filter_absent: "w \<notin> set ks \<Longrightarrow> filter (\<lambda>k. k = w) ks = []"
  by (auto simp: filter_empty_conv)

lemma foldl_increment:
  "foldl increment m ks w =
     (if w \<in> set ks then Some (subscript m w + of_nat (length (filter (\<lambda>k. k = w) ks))) else m w)"
proof (induction ks arbitrary: m)
  case Nil
  show ?case by simp
next
  case (Cons k ks)
  have "foldl increment m (k # ks) w = foldl increment (increment m k) ks w" by simp
  also have "\<dots> = (if w \<in> set ks
      then Some (subscript (increment m k) w + of_nat (length (filter (\<lambda>k. k = w) ks)))
      else increment m k w)"
    by (rule Cons.IH)
  finally show ?case
    by (simp add: subscript_increment increment_apply [of m k w] increment_apply [of m k k]
        filter_absent)
qed

lemma dom_foldl_increment: "dom (foldl increment m ks) = dom m \<union> set ks"
  by (induction ks arbitrary: m) (auto simp: increment_def)

lemma sint_count: "n < 2 ^ 31 \<Longrightarrow> sint (of_nat n :: 32 word) = int n"
  by (simp add: signed_of_nat signed_take_bit_int_eq_self)

lemma tokens_replicate: "tokens (concat (replicate n ''a '')) = replicate n ''a''"
  by (induction n) (simp_all add: tokens_Nil tokens_word_space isspace_def code_def)

subsection \<open>What parse counts\<close>

text \<open>
  Claim C1, as stated: for every text, \<open>parse\<close> from the empty map gives a map that holds for
  each normalized word the number of tokens of the text with that normalization, and has
  no other key.

  The count is a C++ \<open>int\<close>. A text in which one word occurs \<open>2^31\<close> times (4 GiB of \<open>a\<close>
  and a blank) has a number of occurrences that no \<open>int\<close> holds: whatever the map stores
  for the word, read as a signed 32-bit value it is not that number.
\<close>

theorem parse_count_not_representable:
  "count_of (parse Map.empty (concat (replicate 2147483648 ''a ''))) ''a''
     \<noteq> int (occurrences ''a'' (concat (replicate 2147483648 ''a '')))"
proof -
  let ?s = "concat (replicate 2147483648 ''a '')"
  have "normalize_word ''a'' = ''a''"
    by (simp add: normalize_word_def ispunct_def tolower_def code_def)
  then have "occurrences ''a'' ?s = 2147483648"
    by (simp add: occurrences_def tokens_replicate normalize_word_eq [symmetric])
  moreover have "count_of (parse Map.empty ?s) ''a'' < 2147483648"
  proof (cases "parse Map.empty ?s ''a''")
    case None
    then show ?thesis by (simp add: count_of_def)
  next
    case (Some v)
    have "sint v < 2 ^ (LENGTH(32) - 1)" by (rule sint_lt)
    with Some show ?thesis by (simp add: count_of_def)
  qed
  ultimately show ?thesis by simp
qed

text \<open>
  Claim C1, amended: for every text and every word that is the normalization of fewer than
  \<open>2^31\<close> tokens of the text, the map that \<open>parse\<close> builds from the empty map holds for the word
  exactly the number of whitespace-separated tokens whose normalization (punctuation
  removed, the rest in lower case) is that word; and the word is a key of the map only if
  that number is not zero.
\<close>

theorem parse_counts_words:
  "occurrences w s < 2 ^ 31 \<Longrightarrow>
     count_of (parse Map.empty s) w = int (occurrences w s)
     \<and> (w \<in> dom (parse Map.empty s) \<longleftrightarrow> 0 < occurrences w s)"
proof -
  assume bound: "occurrences w s < 2 ^ 31"
  let ?ks = "map normalize_word (tokens s)"
  have occ: "occurrences w s = length (filter (\<lambda>k. k = w) ?ks)"
    by (simp add: occurrences_def normalize_word_eq filter_map comp_def)
  have mem: "w \<in> set ?ks \<longleftrightarrow> 0 < occurrences w s"
    unfolding occ by (auto simp: filter_empty_conv)
  have dom: "w \<in> dom (parse Map.empty s) \<longleftrightarrow> 0 < occurrences w s"
    using mem by (simp add: parse_foldl dom_foldl_increment)
  have val: "parse Map.empty s w =
      (if w \<in> set ?ks then Some (of_nat (occurrences w s)) else None)"
    by (simp add: parse_foldl foldl_increment [of Map.empty ?ks w] subscript_def occ)
  have "count_of (parse Map.empty s) w = int (occurrences w s)"
  proof (cases "w \<in> set ?ks")
    case True
    with val bound show ?thesis by (simp add: count_of_def sint_count)
  next
    case False
    with val mem show ?thesis by (simp add: count_of_def)
  qed
  with dom show ?thesis by simp
qed

lemmas char_class_defs = isspace_def ispunct_def tolower_def code_def char_of_def bit_Suc_0_iff

theorem parse_counts_words_witness:
  "occurrences ''the'' ''The cat. the CAT!'' < 2 ^ 31
   \<and> count_of (parse Map.empty ''The cat. the CAT!'') ''the'' = 2
   \<and> ''the'' \<in> dom (parse Map.empty ''The cat. the CAT!'')
   \<and> ''dog'' \<notin> dom (parse Map.empty ''The cat. the CAT!'')"
proof -
  have the: "occurrences ''the'' ''The cat. the CAT!'' = 2"
    by (simp add: occurrences_def tokens_def lowercase_def strip_punctuation_def char_class_defs)
  have dog: "occurrences ''dog'' ''The cat. the CAT!'' = 0"
    by (simp add: occurrences_def tokens_def lowercase_def strip_punctuation_def char_class_defs)
  show ?thesis
    using parse_counts_words [of "''the''" "''The cat. the CAT!''"]
      parse_counts_words [of "''dog''" "''The cat. the CAT!''"]
    by (simp add: the dog)
qed

subsection \<open>The key of a token\<close>

lemma code_char_of: "n < 256 \<Longrightarrow> code (char_of n) = n"
  by (simp add: code_def)

lemma ispunct_tolower: "ispunct (tolower c) = ispunct c"
proof (cases "65 \<le> code c \<and> code c \<le> 90")
  case True
  then have "code (tolower c) = code c + 32"
    by (simp add: tolower_def code_char_of)
  with True show ?thesis by (simp add: ispunct_def)
next
  case False
  then have "tolower c = c" by (auto simp: tolower_def)
  then show ?thesis by simp
qed

lemma lowercase_strip_commute:
  "lowercase (strip_punctuation t) = strip_punctuation (lowercase t)"
  by (simp add: lowercase_def strip_punctuation_def filter_map comp_def ispunct_tolower)

lemma parse_updates:
  "parse m s =
     foldl (\<lambda>m t. m(lowercase (strip_punctuation t) \<mapsto>
              (case m (lowercase (strip_punctuation t)) of None \<Rightarrow> 0 | Some v \<Rightarrow> v) + 1))
       m (tokens s)"
proof -
  have eq: "increment = (\<lambda>m k. m(k \<mapsto> (case m k of None \<Rightarrow> 0 | Some v \<Rightarrow> v) + 1))"
    by (intro ext) (simp add: increment_def subscript_def)
  show ?thesis
    unfolding parse_foldl foldl_map normalize_word_eq eq by (rule refl)
qed

lemma dom_parse:
  "dom (parse Map.empty s) = (\<lambda>t. lowercase (strip_punctuation t)) ` set (tokens s)"
  by (simp add: parse_foldl dom_foldl_increment normalize_word_eq [abs_def])

text \<open>
  Claim C4: every token that the tokenization produces is counted under the token with
  its punctuation characters removed and the remaining characters in lower case: for
  each token in turn, \<open>parse\<close> sets the count of that key to one more than it was (from 0
  when the key was not in the map), so the keys of the map built from the empty map are
  exactly these words. The source strips first and lowers then; lowering first and
  stripping then gives the same word, because lowering a character does not change
  whether it is punctuation.
\<close>

theorem token_counted_under_normalized_key:
  "parse m s =
     foldl (\<lambda>m t. m(lowercase (strip_punctuation t) \<mapsto>
              (case m (lowercase (strip_punctuation t)) of None \<Rightarrow> 0 | Some v \<Rightarrow> v) + 1))
       m (tokens s)
   \<and> dom (parse Map.empty s) = (\<lambda>t. lowercase (strip_punctuation t)) ` set (tokens s)
   \<and> lowercase (strip_punctuation t) = strip_punctuation (lowercase t)"
  using parse_updates [of m s] dom_parse [of s] lowercase_strip_commute [of t] by (intro conjI)

subsection \<open>What read\_file returns\<close>

lemmas read_file_defs = read_file_def ifstream_open_def seekg_end_def seekg_beg_def tellg_def
  static_cast_size_t_def resize_def read_def max_size_def Let_def

lemma read_file_opened:
  "fs path = Some f \<Longrightarrow> seekable f \<Longrightarrow> length (content f) \<le> max_size
     \<Longrightarrow> read_file fs path = Inr (content f)"
proof -
  assume f: "fs path = Some f" and s: "seekable f" and l: "length (content f) \<le> max_size"
  from l have "int (length (content f)) mod 2 ^ 64 = int (length (content f))"
    by (simp add: max_size_def)
  then have "static_cast_size_t (int (length (content f))) = length (content f)"
    by (simp add: static_cast_size_t_def)
  with f s l show ?thesis
    by (simp add: read_file_def ifstream_open_def seekg_end_def seekg_beg_def tellg_def
        resize_def read_def Let_def)
qed





subsection \<open>Failure\<close>


text \<open>Whatever leaves \<open>read_file\<close> is one of the two exceptions, and the second only once the file is open.\<close>

lemma read_file_Inl:
  "read_file fs path = Inl e \<Longrightarrow>
     (fs path = None \<and> e = Runtime_error ''cannot open file'') \<or> (fs path \<noteq> None \<and> e = Length_error)"
  by (cases "fs path") (auto simp: read_file_defs split: if_splits)





subsection \<open>The order of the output\<close>

lemma comparator_irrefl: "\<not> comparator a a"
  by (simp add: comparator_def)

lemma comparator_trans: "comparator a b \<Longrightarrow> comparator b c \<Longrightarrow> comparator a c"
  by (auto simp: comparator_def split: if_splits)

lemma comparator_asym: "comparator a b \<Longrightarrow> \<not> comparator b a"
  by (auto simp: comparator_def split: if_splits)

lemma comparator_total: "a \<noteq> b \<Longrightarrow> comparator a b \<or> comparator b a"
proof (cases "snd a = snd b")
  case True
  assume "a \<noteq> b"
  with True have "fst a \<noteq> fst b" by (auto simp: prod_eq_iff)
  with True show ?thesis by (auto simp: comparator_def)
next
  case False
  then have "sint (snd a) \<noteq> sint (snd b)" by (auto dest: signed_word_eqI)
  with False show ?thesis by (auto simp: comparator_def)
qed

lemma set_insert_by: "set (insert_by lt x xs) = insert x (set xs)"
  by (induction xs) auto

lemma mset_insert_by: "mset (insert_by lt x xs) = add_mset x (mset xs)"
  by (induction xs) auto

lemma mset_std_sort: "mset (std_sort lt xs) = mset xs"
  by (induction xs) (auto simp: mset_insert_by)

lemma sorted_insert_by:
  "sorted_wrt (\<lambda>a b. \<not> comparator b a) xs
     \<Longrightarrow> sorted_wrt (\<lambda>a b. \<not> comparator b a) (insert_by comparator x xs)"
proof (induction xs)
  case Nil
  show ?case by simp
next
  case (Cons y ys)
  show ?case
  proof (cases "comparator x y")
    case True
    have "\<not> comparator z x" if "z \<in> set (y # ys)" for z
    proof
      assume "comparator z x"
      from this True have "comparator z y" by (rule comparator_trans)
      with that Cons.prems show False by (auto simp: comparator_irrefl)
    qed
    with True Cons.prems show ?thesis by simp
  next
    case False
    with Cons show ?thesis by (auto simp: set_insert_by)
  qed
qed

lemma sorted_std_sort: "sorted_wrt (\<lambda>a b. \<not> comparator b a) (std_sort comparator xs)"
  by (induction xs) (simp_all add: sorted_insert_by)

lemma sorted_unique:
  "sorted_wrt (\<lambda>a b. \<not> comparator b a) xs \<Longrightarrow> sorted_wrt (\<lambda>a b. \<not> comparator b a) ys
     \<Longrightarrow> mset xs = mset ys \<Longrightarrow> xs = ys"
proof (induction xs arbitrary: ys)
  case Nil
  then show ?case by simp
next
  case (Cons x xs)
  from Cons.prems(3) obtain y ys' where ys: "ys = y # ys'" by (cases ys) auto
  have "x = y"
  proof (rule ccontr)
    assume ne: "x \<noteq> y"
    from Cons.prems(3) have "set (x # xs) = set ys" by (metis mset_eq_setD)
    with ne ys have "x \<in> set ys'" and "y \<in> set xs" by auto
    with Cons.prems(1,2) ys have "\<not> comparator x y" and "\<not> comparator y x" by auto
    with ne comparator_total show False by blast
  qed
  with Cons ys show ?case by simp
qed

lemma sorted_permutation_unique:
  "mset out = mset vec \<Longrightarrow> sorted_wrt (\<lambda>a b. \<not> comparator b a) out
     \<Longrightarrow> out = std_sort comparator vec"
  by (rule sorted_unique) (simp_all add: sorted_std_sort mset_std_sort)

lemma std_sort_permutation:
  "mset xs = mset ys \<Longrightarrow> std_sort comparator xs = std_sort comparator ys"
  by (rule sorted_unique) (simp_all add: sorted_std_sort mset_std_sort)

lemma iteration_mset:
  "iteration_of m vec1 \<Longrightarrow> iteration_of m vec2 \<Longrightarrow> mset vec1 = mset vec2"
  unfolding iteration_of_def by (metis set_eq_iff_mset_eq_distinct)

lemma descending: "\<not> comparator b a \<Longrightarrow> sint (snd a) \<ge> sint (snd b)"
  by (auto simp: comparator_def split: if_splits)

text \<open>
  Claim C2: the printed list is sorted by frequency: the count of every entry is greater
  than or equal to the count of every entry after it, so of the one that follows it.
\<close>

theorem output_sorted_by_count:
  "main fs (Inr out) \<Longrightarrow> sorted_wrt (\<lambda>a b. sint (snd a) \<ge> sint (snd b)) out"
proof -
  assume "main fs (Inr out)"
  then obtain vec where "out = std_sort comparator vec"
    by (auto simp: main.simps)
  then have "sorted_wrt (\<lambda>a b. \<not> comparator b a) out"
    by (simp add: sorted_std_sort)
  then show ?thesis
    by (rule sorted_wrt_mono_rel [rotated]) (simp add: descending)
qed

text \<open>
  Claim C7: the comparator (count descending, then word ascending) is a strict total
  order on the entries: irreflexive, transitive, and any two different entries are
  ordered one way or the other. So the sorted sequence does not depend on the order in
  which the map is iterated, and two runs of \<open>main\<close> on the same file system end the same
  way.
\<close>

theorem output_deterministic:
  "(\<not> comparator a a)
   \<and> (comparator a b \<longrightarrow> comparator b c \<longrightarrow> comparator a c)
   \<and> (a \<noteq> b \<longrightarrow> comparator a b \<or> comparator b a)
   \<and> (iteration_of m vec1 \<longrightarrow> iteration_of m vec2
        \<longrightarrow> std_sort comparator vec1 = std_sort comparator vec2)
   \<and> (main fs out1 \<longrightarrow> main fs out2 \<longrightarrow> out1 = out2)"
proof (intro conjI impI)
  show "\<not> comparator a a" by (rule comparator_irrefl)
  show "comparator a c" if "comparator a b" "comparator b c"
    using that by (rule comparator_trans)
  show "comparator a b \<or> comparator b a" if "a \<noteq> b"
    using that by (rule comparator_total)
  show "std_sort comparator vec1 = std_sort comparator vec2"
    if "iteration_of m vec1" "iteration_of m vec2"
    using that by (intro std_sort_permutation iteration_mset)
  show "out1 = out2" if r1: "main fs out1" and r2: "main fs out2"
    using r1
  proof (cases rule: main.cases)
    case (throws e1)
    with r2 show ?thesis by (auto simp: main.simps)
  next
    case (prints s1 v1)
    from r2 show ?thesis
    proof (cases rule: main.cases)
      case (throws e2)
      with prints show ?thesis by simp
    next
      case p2: (prints s2 v2)
      with prints have "s1 = s2" by simp
      with prints p2 have "std_sort comparator v1 = std_sort comparator v2"
        by (intro std_sort_permutation iteration_mset) simp_all
      with prints p2 show ?thesis by simp
    qed
  qed
qed


subsection \<open>A run on a small file\<close>

lemma set_std_sort: "set (std_sort lt xs) = set xs"
  by (rule mset_eq_setD) (rule mset_std_sort)

lemma iteration_ofI: "distinct (map fst vec) \<Longrightarrow> map_of vec = m \<Longrightarrow> iteration_of m vec"
  unfolding iteration_of_def
  using graph_map_of_if_distinct_dom [of vec] by (auto simp: distinct_map)

lemma example_tokens: "tokens ''b, a B !!'' = [''b,'', ''a'', ''B'', ''!!'']"
  by (simp add: tokens_def isspace_def code_def)

lemma example_keys: "map normalize_word (tokens ''b, a B !!'') = [''b'', ''a'', ''b'', []]"
  by (simp add: example_tokens normalize_word_def char_class_defs)

lemma example_parse:
  "parse Map.empty ''b, a B !!'' = map_of [(''a'', 1), (''b'', 2), ([], 1)]"
  by (rule ext) (simp add: parse_foldl example_keys increment_def subscript_def)

lemma example_iteration1:
  "iteration_of (parse Map.empty ''b, a B !!'') [(''a'', 1), (''b'', 2), ([], 1)]"
  by (rule iteration_ofI) (simp_all add: example_parse)

lemma example_iteration2:
  "iteration_of (parse Map.empty ''b, a B !!'') [([], 1), (''a'', 1), (''b'', 2)]"
  by (rule iteration_ofI) (auto simp: example_parse)

lemma example_read: "read_file [input_path \<mapsto> regular_file ''b, a B !!''] input_path = Inr ''b, a B !!''"
  using read_file_opened [of "[input_path \<mapsto> regular_file ''b, a B !!'']" input_path
      "regular_file ''b, a B !!''"]
  by (simp add: regular_file_def max_size_def)

lemma example_sort1:
  "std_sort comparator [(''a'', 1), (''b'', 2), ([], 1)] = [(''b'', 2), ([], 1), (''a'', 1)]"
  by (simp add: comparator_def)

lemma example_sort2:
  "std_sort comparator [([], 1), (''a'', 1), (''b'', 2)] = [(''b'', 2), ([], 1), (''a'', 1)]"
  by (simp add: comparator_def)

lemma example_run:
  "main [input_path \<mapsto> regular_file ''b, a B !!''] (Inr [(''b'', 2), ([], 1), (''a'', 1)])"
  using main.prints [OF example_read example_iteration1] by (simp only: example_sort1)

lemma example_run2:
  "main [input_path \<mapsto> regular_file ''b, a B !!''] (Inr (std_sort comparator [([], 1), (''a'', 1), (''b'', 2)]))"
  using example_read example_iteration2 by (rule main.prints)

theorem output_sorted_by_count_witness:
  "main [input_path \<mapsto> regular_file ''b, a B !!''] (Inr [(''b'', 2), ([], 1), (''a'', 1)])
   \<and> sorted_wrt (\<lambda>a b. sint (snd a) \<ge> sint (snd b)) [(''b'', 2 :: cxx_int), ([], 1), (''a'', 1)]"
  using example_run output_sorted_by_count [OF example_run] by simp

theorem token_counted_under_normalized_key_witness:
  "parse Map.empty ''b, a B !!'' ''b'' = Some 2
   \<and> dom (parse Map.empty ''b, a B !!'') = {''b'', ''a'', []}
   \<and> lowercase (strip_punctuation ''B,'') = ''b''
   \<and> strip_punctuation (lowercase ''B,'') = ''b''"
proof -
  note t = token_counted_under_normalized_key [of Map.empty "''b, a B !!''" "''B,''"]
  have k: "lowercase (strip_punctuation ''B,'') = ''b''"
    by (simp add: lowercase_def strip_punctuation_def char_class_defs)
  have "parse Map.empty ''b, a B !!'' ''b'' = Some 2"
    by (simp add: t [THEN conjunct1] example_tokens lowercase_def strip_punctuation_def
        char_class_defs)
  moreover have "dom (parse Map.empty ''b, a B !!'') = {''b'', ''a'', []}"
    by (auto simp: t [THEN conjunct2, THEN conjunct1] example_tokens lowercase_def
        strip_punctuation_def char_class_defs)
  moreover from t k have "strip_punctuation (lowercase ''B,'') = ''b''" by simp
  ultimately show ?thesis using k by simp
qed


theorem output_deterministic_witness:
  "comparator (''b'', 2) ([], 1) \<and> comparator ([], 1) (''a'', 1) \<and> comparator (''b'', 2) (''a'', 1)
   \<and> (''a'', 1 :: cxx_int) \<noteq> ([], 1)
   \<and> iteration_of (parse Map.empty ''b, a B !!'') [(''a'', 1), (''b'', 2), ([], 1)]
   \<and> iteration_of (parse Map.empty ''b, a B !!'') [([], 1), (''a'', 1), (''b'', 2)]
   \<and> std_sort comparator [(''a'', 1), (''b'', 2), ([], 1)]
       = std_sort comparator [([], 1), (''a'', 1), (''b'', 2)]
   \<and> main [input_path \<mapsto> regular_file ''b, a B !!''] (Inr [(''b'', 2), ([], 1), (''a'', 1)])
   \<and> main [input_path \<mapsto> regular_file ''b, a B !!'']
        (Inr (std_sort comparator [([], 1), (''a'', 1), (''b'', 2)]))
   \<and> Inr [(''b'', 2), ([], 1), (''a'', 1)]
       = (Inr (std_sort comparator [([], 1), (''a'', 1), (''b'', 2)]) :: exception + entry list)"
proof -
  have c1: "comparator (''b'', 2) ([], 1)" and c2: "comparator ([], 1) (''a'', 1)"
    by (simp_all add: comparator_def)
  have ne: "(''a'', 1 :: cxx_int) \<noteq> ([], 1)" by simp
  note d = output_deterministic [of "(''b'', 2)" "([], 1)" "(''a'', 1)"
      "parse Map.empty ''b, a B !!''" "[(''a'', 1), (''b'', 2), ([], 1)]"
      "[([], 1), (''a'', 1), (''b'', 2)]" "[input_path \<mapsto> regular_file ''b, a B !!'']"
      "Inr [(''b'', 2), ([], 1), (''a'', 1)]"
      "Inr (std_sort comparator [([], 1), (''a'', 1), (''b'', 2)])"]
  from d c1 c2 have c3: "comparator (''b'', 2) (''a'', 1)" by blast
  from d example_iteration1 example_iteration2
  have s: "std_sort comparator [(''a'', 1), (''b'', 2), ([], 1)]
       = std_sort comparator [([], 1), (''a'', 1), (''b'', 2)]" by blast
  from d example_run example_run2
  have r: "Inr [(''b'', 2), ([], 1), (''a'', 1)]
       = (Inr (std_sort comparator [([], 1), (''a'', 1), (''b'', 2)]) :: exception + entry list)"
    by blast
  from c1 c2 c3 ne example_iteration1 example_iteration2 s example_run example_run2 r
  show ?thesis by (intro conjI)
qed

text \<open>
  Claim C8: a token that consists of punctuation characters only is counted under the
  empty word: the empty word is then a key of the map and every run of \<open>main\<close> on that text
  prints an entry with the empty word. There are such inputs.
\<close>

theorem punctuation_token_has_empty_key:
  "(t \<in> set (tokens s) \<longrightarrow> (\<forall>c \<in> set t. ispunct c) \<longrightarrow>
      normalize_word t = [] \<and> [] \<in> dom (parse Map.empty s)
      \<and> (read_file fs input_path = Inr s \<longrightarrow> main fs (Inr out) \<longrightarrow> [] \<in> fst ` set out))
   \<and> (\<exists>s' fs' out'. [] \<in> dom (parse Map.empty s') \<and> main fs' (Inr out') \<and> [] \<in> fst ` set out')"
proof (intro conjI impI)
  assume t: "t \<in> set (tokens s)" and p: "\<forall>c \<in> set t. ispunct c"
  from p show n: "normalize_word t = []"
    by (simp add: normalize_word_def remove_if_filter transform_map filter_empty_conv)
  from t have "normalize_word t \<in> set (map normalize_word (tokens s))" by simp
  with n show k: "[] \<in> dom (parse Map.empty s)"
    by (simp add: parse_foldl dom_foldl_increment del: set_map)
  assume f: "read_file fs input_path = Inr s" and r: "main fs (Inr out)"
  with r obtain vec where v: "iteration_of (parse Map.empty s) vec"
    and o: "out = std_sort comparator vec"
    by (auto simp: main.simps)
  from k obtain c where "parse Map.empty s [] = Some c" by auto
  then have "([], c) \<in> Map.graph (parse Map.empty s)" by (simp add: in_graphI)
  with v o have "([], c) \<in> set out" by (simp add: iteration_of_def set_std_sort)
  then show "[] \<in> fst ` set out" by force
next
  have "[] \<in> dom (parse Map.empty ''b, a B !!'')" by (simp add: example_parse)
  moreover have "[] \<in> fst ` set [(''b'', 2 :: cxx_int), ([], 1), (''a'', 1)]" by simp
  ultimately show "\<exists>s' fs' out'. [] \<in> dom (parse Map.empty s') \<and> main fs' (Inr out')
      \<and> [] \<in> fst ` set out'"
    using example_run by blast
qed

theorem punctuation_token_has_empty_key_witness:
  "''!!'' \<in> set (tokens ''b, a B !!'') \<and> ispunct CHR ''!''
   \<and> normalize_word ''!!'' = [] \<and> [] \<in> dom (parse Map.empty ''b, a B !!'')
   \<and> read_file [input_path \<mapsto> regular_file ''b, a B !!''] input_path = Inr ''b, a B !!''
   \<and> main [input_path \<mapsto> regular_file ''b, a B !!''] (Inr [(''b'', 2), ([], 1), (''a'', 1)])
   \<and> [] \<in> fst ` set [(''b'', 2 :: cxx_int), ([], 1), (''a'', 1)]"
proof -
  have t: "''!!'' \<in> set (tokens ''b, a B !!'')" by (simp add: example_tokens)
  have e: "ispunct CHR ''!''" by (simp add: ispunct_def code_def)
  then have p: "\<forall>c \<in> set ''!!''. ispunct c" by simp
  note f = example_read
  from punctuation_token_has_empty_key [of "''!!''" "''b, a B !!''"
      "[input_path \<mapsto> regular_file ''b, a B !!'']" "[(''b'', 2), ([], 1), (''a'', 1)]"] t p f example_run
  have "normalize_word ''!!'' = [] \<and> [] \<in> dom (parse Map.empty ''b, a B !!'')
      \<and> [] \<in> fst ` set [(''b'', 2 :: cxx_int), ([], 1), (''a'', 1)]"
    by blast
  with t e f example_run show ?thesis by blast
qed

section \<open>Properties of the two threads\<close>

lemma all_threads: "(\<forall>t. P t) = (P T1 \<and> P T2)"
  by (metis thread.exhaust)

lemma invariant_initial: "invariant initial"
  by (simp add: invariant_def initial_def)

lemma invariant_step: "step s s' \<Longrightarrow> invariant s \<Longrightarrow> invariant s'"
proof (induction rule: step.induct)
  case (lock s t)
  then show ?case by (cases t) (auto simp: invariant_def all_threads)
next
  case (load s t)
  then show ?case by (cases t) (auto simp: invariant_def all_threads)
next
  case (store s t v)
  then show ?case by (cases t) (auto simp: invariant_def all_threads)
next
  case (unlock s t)
  then show ?case by (cases t) (auto simp: invariant_def all_threads)
qed

lemma invariant_reachable: "reachable s \<Longrightarrow> invariant s"
  unfolding reachable_def
  by (induction rule: rtranclp_induct) (auto intro: invariant_initial invariant_step)

lemma step_decreases: "step s s' \<Longrightarrow> steps_left s' < steps_left s"
  by (induction rule: step.induct) (case_tac [!] t, auto simp: steps_left_def)

lemma progress: "invariant s \<Longrightarrow> \<not> joined s \<Longrightarrow> \<exists>s'. step s s'"
proof -
  assume i: "invariant s" and "\<not> joined s"
  then obtain t where t: "place_of s t \<noteq> Returned"
    by (auto simp: joined_def)
  show ?thesis
  proof (cases "\<exists>u. critical (place_of s u)")
    case True
    then obtain u where "critical (place_of s u)" ..
    then show ?thesis
      by (cases "place_of s u") (auto intro: step.intros)
  next
    case False
    with i have "owner s = None"
      by (cases "owner s") (auto simp: invariant_def)
    moreover from False have "\<not> critical (place_of s t)" by blast
    with t have "place_of s t = Before_lock"
      by (cases "place_of s t") auto
    ultimately show ?thesis by (auto intro: step.lock)
  qed
qed

text \<open>
  Claim C6: each thread increments the counter once, holding the mutex, so in every
  interleaving the counter is 2 when both threads are joined. In every reachable state:
  the two threads are not both in the critical section; a thread that has read the counter
  owns the mutex and the counter still has the value read; the counter is the number of
  increments done, one for each thread that has passed its write; so it is 2 once both
  threads have returned. And both threads do return: a state in which they have not has a
  next step, and every step brings the end nearer.
\<close>

theorem mutex_counter:
  "reachable s \<Longrightarrow>
     (critical (place_of s T1) \<longrightarrow> \<not> critical (place_of s T2))
     \<and> (\<forall>t v. place_of s t = Read_value v \<longrightarrow> owner s = Some t \<and> v = myAmount s)
     \<and> myAmount s = increments (place_of s T1) + increments (place_of s T2)
     \<and> (joined s \<longrightarrow> myAmount s = 2)
     \<and> (\<not> joined s \<longrightarrow> (\<exists>s'. step s s'))
     \<and> (\<forall>s'. step s s' \<longrightarrow> steps_left s' < steps_left s)"
proof -
  assume "reachable s"
  then have i: "invariant s" by (rule invariant_reachable)
  then have "critical (place_of s T1) \<longrightarrow> \<not> critical (place_of s T2)"
    by (auto simp: invariant_def all_threads)
  moreover from i have "\<forall>t v. place_of s t = Read_value v \<longrightarrow> owner s = Some t \<and> v = myAmount s"
    by (auto simp: invariant_def)
  moreover from i have a: "myAmount s = increments (place_of s T1) + increments (place_of s T2)"
    by (simp add: invariant_def)
  moreover from a have "joined s \<longrightarrow> myAmount s = 2" by (simp add: joined_def)
  moreover from i have "\<not> joined s \<longrightarrow> (\<exists>s'. step s s')" by (simp add: progress)
  moreover have "\<forall>s'. step s s' \<longrightarrow> steps_left s' < steps_left s" by (simp add: step_decreases)
  ultimately show ?thesis by blast
qed

text \<open>A run: the first thread goes through \<open>addMoney\<close>, then the second.\<close>

lemma thread_runs:
  assumes "owner s = None" and "place_of s t = Before_lock"
  shows "step\<^sup>*\<^sup>* s (s\<lparr>myAmount := myAmount s + 1, place_of := (place_of s)(t := Returned)\<rparr>)"
proof -
  let ?s1 = "s\<lparr>owner := Some t, place_of := (place_of s)(t := Holding)\<rparr>"
  let ?s2 = "?s1\<lparr>place_of := (place_of ?s1)(t := Read_value (myAmount ?s1))\<rparr>"
  let ?s3 = "?s2\<lparr>myAmount := myAmount s + 1, place_of := (place_of ?s2)(t := Written)\<rparr>"
  let ?s4 = "?s3\<lparr>owner := None, place_of := (place_of ?s3)(t := Returned)\<rparr>"
  have "step s ?s1" by (rule step.lock [OF assms(2) assms(1)])
  then have "step\<^sup>*\<^sup>* s ?s1" by (rule r_into_rtranclp)
  moreover have "step ?s1 ?s2" by (rule step.load) simp
  ultimately have "step\<^sup>*\<^sup>* s ?s2" by (rule rtranclp.rtrancl_into_rtrancl)
  moreover have "step ?s2 ?s3" by (rule step.store) simp
  ultimately have "step\<^sup>*\<^sup>* s ?s3" by (rule rtranclp.rtrancl_into_rtrancl)
  moreover have "step ?s3 ?s4" by (rule step.unlock) simp
  ultimately have "step\<^sup>*\<^sup>* s ?s4" by (rule rtranclp.rtrancl_into_rtrancl)
  moreover from assms have "?s4 = s\<lparr>myAmount := myAmount s + 1, place_of := (place_of s)(t := Returned)\<rparr>"
    by simp
  ultimately show ?thesis by simp
qed

lemma both_return: "reachable \<lparr>myAmount = 2, owner = None, place_of = (\<lambda>t. Returned)\<rparr>"
proof -
  let ?m = "initial\<lparr>myAmount := 1, place_of := (place_of initial)(T1 := Returned)\<rparr>"
  have "step\<^sup>*\<^sup>* initial ?m"
    using thread_runs [of initial T1] by (simp add: initial_def)
  moreover have "step\<^sup>*\<^sup>* ?m (?m\<lparr>myAmount := 2, place_of := (place_of ?m)(T2 := Returned)\<rparr>)"
    using thread_runs [of ?m T2] by (simp add: initial_def)
  moreover have "?m\<lparr>myAmount := 2, place_of := (place_of ?m)(T2 := Returned)\<rparr>
      = \<lparr>myAmount = 2, owner = None, place_of = (\<lambda>t. Returned)\<rparr>"
    by (auto simp: initial_def fun_eq_iff all_threads)
  ultimately show ?thesis unfolding reachable_def by (simp only: rtranclp_trans)
qed

theorem mutex_counter_witness:
  "reachable \<lparr>myAmount = 2, owner = None, place_of = (\<lambda>t. Returned)\<rparr>
   \<and> joined \<lparr>myAmount = 2, owner = None, place_of = (\<lambda>t. Returned)\<rparr>
   \<and> myAmount \<lparr>myAmount = 2, owner = None, place_of = (\<lambda>t. Returned)\<rparr> = 2
   \<and> reachable initial \<and> \<not> joined initial \<and> (\<exists>s'. step initial s')"
proof -
  have "reachable initial" by (simp add: reachable_def)
  moreover have "\<not> joined initial" by (simp add: joined_def initial_def)
  moreover have "joined \<lparr>myAmount = 2, owner = None, place_of = (\<lambda>t. Returned)\<rparr>"
    by (simp add: joined_def)
  ultimately show ?thesis
    using both_return mutex_counter [OF both_return] mutex_counter [of initial]
    by simp
qed

section \<open>Properties of the filter\<close>

subsection \<open>The frame\<close>

lemma index_Some: "index xs i = Some x \<longleftrightarrow> i < length xs \<and> x = xs ! i"
  by (auto simp: index_def)

lemma assign_Some: "assign xs i v = Some ys \<longleftrightarrow> i < length xs \<and> ys = xs[i := v]"
  by (auto simp: assign_def)

lemma frame_refl: "frame ops Data Data"
  by (simp add: frame_def)

lemma collect_zeros:
  "frame ops Data FData \<Longrightarrow> zeros_of ops Data ZStack
     \<Longrightarrow> collect ops FData ps (ZStack, Window) = Some (ZStack', Window')
     \<Longrightarrow> zeros_of ops Data ZStack'"
proof (induction ps arbitrary: ZStack Window)
  case Nil
  then show ?case by simp
next
  case (Cons p ps)
  obtain m n where p: "p = (m, n)" by (cases p)
  from Cons.prems(3) p obtain v where m: "m < length FData" and n: "n < length (FData ! m)"
    and v: "v = FData ! m ! n"
    and rest: "collect ops FData ps
        (if is_zero ops v then ZStack @ [(m, n)] else ZStack, Window @ [v]) = Some (ZStack', Window')"
    by (auto simp: index_Some split: Option.bind_splits)
  have "zeros_of ops Data (if is_zero ops v then ZStack @ [(m, n)] else ZStack)"
  proof (cases "is_zero ops v")
    case True
    from Cons.prems(1) m n have md: "m < length Data" and nd: "n < length (Data ! m)"
      by (simp_all add: frame_def)
    have "is_zero ops (Data ! m ! n)"
    proof (rule ccontr)
      assume "\<not> is_zero ops (Data ! m ! n)"
      with Cons.prems(1) md nd have "FData ! m ! n = Data ! m ! n" by (simp add: frame_def)
      with True v \<open>\<not> is_zero ops (Data ! m ! n)\<close> show False by simp
    qed
    with True md nd Cons.prems(2) show ?thesis by (simp add: zeros_of_def)
  next
    case False
    with Cons.prems(2) show ?thesis by simp
  qed
  with Cons.IH Cons.prems(1) rest show ?case by blast
qed

lemma replace_frame:
  "frame ops Data FData \<Longrightarrow> zeros_of ops Data ZStack
     \<Longrightarrow> replace FData ZStack MedValue = Some FData' \<Longrightarrow> frame ops Data FData'"
proof (induction ZStack arbitrary: FData)
  case Nil
  then show ?case by simp
next
  case (Cons p ZStack)
  obtain m n where p: "p = (m, n)" by (cases p)
  let ?F = "FData[m := (FData ! m)[n := MedValue]]"
  from Cons.prems(3) p have m: "m < length FData" and n: "n < length (FData ! m)"
    and rest: "replace ?F ZStack MedValue = Some FData'"
    by (auto simp: index_Some assign_Some split: Option.bind_splits)
  from Cons.prems(2) p have z: "is_zero ops (Data ! m ! n)" and zs: "zeros_of ops Data ZStack"
    by (simp_all add: zeros_of_def)
  have "frame ops Data ?F"
    unfolding frame_def
  proof (intro conjI allI impI)
    show "length ?F = length Data" using Cons.prems(1) by (simp add: frame_def)
  next
    fix i assume i: "i < length Data"
    with Cons.prems(1) show "length (?F ! i) = length (Data ! i)"
      by (cases "i = m") (simp_all add: frame_def)
  next
    fix i j assume i: "i < length Data" and j: "j < length (Data ! i)"
      and nz: "\<not> is_zero ops (Data ! i ! j)"
    from nz z have ne: "\<not> (i = m \<and> j = n)" by auto
    from Cons.prems(1) i j nz have old: "FData ! i ! j = Data ! i ! j"
      and len: "length FData = length Data"
      by (simp_all add: frame_def)
    from ne i len have "?F ! i ! j = FData ! i ! j"
      by (cases "i = m") auto
    with old show "?F ! i ! j = Data ! i ! j" by simp
  qed
  with Cons.IH zs rest show ?case by blast
qed

lemma filter_cell_frame:
  "frame ops Data FData \<Longrightarrow> filter_cell ops FData ij = Some FData' \<Longrightarrow> frame ops Data FData'"
proof -
  assume f: "frame ops Data FData" and c: "filter_cell ops FData ij = Some FData'"
  obtain i j where ij: "ij = (i, j)" by (cases ij)
  from c ij obtain ps ZStack Window MedValue
    where col: "collect ops FData ps ([], []) = Some (ZStack, Window)"
      and res: "(if ZStack \<noteq> [] then replace FData ZStack MedValue else Some FData) = Some FData'"
    by (auto simp: filter_cell_def Let_def split: Option.bind_splits)
  have "zeros_of ops Data []" by (simp add: zeros_of_def)
  from f this col have z: "zeros_of ops Data ZStack" by (rule collect_zeros)
  show ?thesis
  proof (cases "ZStack \<noteq> []")
    case True
    with res have "replace FData ZStack MedValue = Some FData'" by simp
    with f z show ?thesis by (rule replace_frame)
  next
    case False
    with res f show ?thesis by simp
  qed
qed

lemma general_loop_frame:
  "frame ops Data FData \<Longrightarrow> general_loop ops FData ps = Some FData' \<Longrightarrow> frame ops Data FData'"
proof (induction ps arbitrary: FData)
  case Nil
  then show ?case by simp
next
  case (Cons p ps)
  from Cons.prems(2) obtain F1 where "filter_cell ops FData p = Some F1"
    and rest: "general_loop ops F1 ps = Some FData'"
    by (auto split: Option.bind_splits)
  with Cons.prems(1) have "frame ops Data F1" by (blast intro: filter_cell_frame)
  with Cons.IH rest show ?case by blast
qed

text \<open>
  Whenever \<open>FilterData\<close> returns without an access outside a vector, what it returns has the
  dimensions of \<open>Data\<close> and holds the value of \<open>Data\<close> wherever that is not zero.
\<close>

lemma FilterData_frame: "FilterData ops Data = Some FData \<Longrightarrow> frame ops Data FData"
  unfolding FilterData_def by (rule general_loop_frame [OF frame_refl])

subsection \<open>Where the filter is defined\<close>

lemma collect_defined:
  "\<forall>(m, n) \<in> set ps. m < length FData \<and> n < length (FData ! m)
     \<Longrightarrow> \<exists>ZStack' Window'. collect ops FData ps (ZStack, Window) = Some (ZStack', Window')
           \<and> length Window' = length Window + length ps
           \<and> set ZStack' \<subseteq> set ZStack \<union> set ps"
proof (induction ps arbitrary: ZStack Window)
  case Nil
  show ?case by simp
next
  case (Cons p ps)
  obtain m n where p: "p = (m, n)" by (cases p)
  with Cons.prems have m: "m < length FData" and n: "n < length (FData ! m)"
    and rest: "\<forall>(m, n) \<in> set ps. m < length FData \<and> n < length (FData ! m)"
    by auto
  let ?v = "FData ! m ! n"
  let ?Z = "if is_zero ops ?v then ZStack @ [(m, n)] else ZStack"
  from Cons.IH [OF rest, of ?Z "Window @ [?v]"]
  obtain Z' W' where c: "collect ops FData ps (?Z, Window @ [?v]) = Some (Z', W')"
    and l: "length W' = length (Window @ [?v]) + length ps"
    and z: "set Z' \<subseteq> set ?Z \<union> set ps"
    by blast
  from m n c have "collect ops FData (p # ps) (ZStack, Window) = Some (Z', W')"
    by (simp add: p index_def)
  moreover from l have "length W' = length Window + length (p # ps)" by simp
  moreover from z p have "set Z' \<subseteq> set ZStack \<union> set (p # ps)"
    by (auto split: if_splits)
  ultimately show ?case by blast
qed

lemma least_from_defined:
  "imin < length Window \<Longrightarrow> \<forall>k \<in> set ks. k < length Window
     \<Longrightarrow> \<exists>r. least_from ops Window imin ks = Some r \<and> r < length Window"
  by (induction ks arbitrary: imin) (simp_all add: index_def)

lemma sort_front_defined:
  "\<forall>e \<in> set es. e < length Window
     \<Longrightarrow> \<exists>Window'. sort_front ops Window es = Some Window' \<and> length Window' = length Window"
proof (induction es arbitrary: Window)
  case Nil
  show ?case by simp
next
  case (Cons e es)
  then have e: "e < length Window" by simp
  then obtain r where r: "least_from ops Window e [e + 1 ..< length Window] = Some r"
    and rl: "r < length Window"
    using least_from_defined [of e Window "[e + 1 ..< length Window]" ops] by auto
  let ?W = "Window[e := Window ! r, r := Window ! e]"
  from Cons.prems have "\<forall>e \<in> set es. e < length ?W" by simp
  from Cons.IH [OF this] obtain W' where "sort_front ops ?W es = Some W'"
    and "length W' = length ?W" by blast
  with e r rl show ?case by (simp add: index_def assign_def)
qed

lemma median_defined:
  "0 < mid \<Longrightarrow> mid < length Window \<Longrightarrow> \<exists>v. median ops Window mid = Some v"
  by (simp add: median_def index_def)

lemma replace_defined:
  "\<forall>(m, n) \<in> set ZStack. m < length FData \<and> n < length (FData ! m)
     \<Longrightarrow> \<exists>FData'. replace FData ZStack MedValue = Some FData'"
proof (induction ZStack arbitrary: FData)
  case Nil
  show ?case by simp
next
  case (Cons p ZStack)
  obtain m n where p: "p = (m, n)" by (cases p)
  with Cons.prems have m: "m < length FData" and n: "n < length (FData ! m)" by auto
  let ?F = "FData[m := (FData ! m)[n := MedValue]]"
  have "\<forall>(m', n') \<in> set ZStack. m' < length ?F \<and> n' < length (?F ! m')"
  proof (clarify)
    fix m' n' assume "(m', n') \<in> set ZStack"
    with Cons.prems have "m' < length FData" and "n' < length (FData ! m')" by auto
    then show "m' < length ?F \<and> n' < length (?F ! m')"
      by (cases "m' = m") simp_all
  qed
  from Cons.IH [OF this] obtain F' where "replace ?F ZStack MedValue = Some F'" by blast
  with m n show ?case by (simp add: p index_def assign_def)
qed

lemma window_defined:
  assumes inside: "\<forall>(m, n) \<in> set ps. m < length FData \<and> n < length (FData ! m)"
    and two: "2 \<le> length ps"
  shows "\<exists>FData'.
     do {
       (ZStack, Window) \<leftarrow> collect ops FData ps ([], []);
       let mid = (length Window + 1) div 2;
       Window \<leftarrow> sort_front ops Window [0 ..< mid + 1];
       MedValue \<leftarrow> median ops Window mid;
       if ZStack \<noteq> [] then replace FData ZStack MedValue else Some FData
     } = Some FData'"
proof -
  from collect_defined [OF inside, of ops "[]" "[]"]
  obtain Z W where col: "collect ops FData ps ([], []) = Some (Z, W)"
    and len: "length W = length ps" and zs: "set Z \<subseteq> set ps"
    by auto
  from len two have w2: "2 \<le> length W" by simp
  let ?mid = "(length W + 1) div 2"
  from w2 have mid: "?mid < length W" and mid0: "0 < ?mid" by simp_all
  then have "\<forall>e \<in> set [0 ..< ?mid + 1]. e < length W" by simp
  from sort_front_defined [OF this] obtain W' where srt: "sort_front ops W [0 ..< ?mid + 1] = Some W'"
    and len': "length W' = length W" by blast
  from mid mid0 len' obtain v where med: "median ops W' ?mid = Some v"
    using median_defined [of ?mid W' ops] by auto
  from zs inside have "\<forall>(m, n) \<in> set Z. m < length FData \<and> n < length (FData ! m)" by blast
  from replace_defined [OF this] obtain F' where rep: "replace FData Z v = Some F'" by blast
  have "do {
       (ZStack, Window) \<leftarrow> collect ops FData ps ([], []);
       let mid = (length Window + 1) div 2;
       Window \<leftarrow> sort_front ops Window [0 ..< mid + 1];
       MedValue \<leftarrow> median ops Window mid;
       if ZStack \<noteq> [] then replace FData ZStack MedValue else Some FData
     } = (if Z \<noteq> [] then Some F' else Some FData)"
    by (simp only: col srt med rep Option.bind.bind_lunit prod.case Let_def)
  then show ?thesis by (cases "Z \<noteq> []") simp_all
qed

lemma window_rows:
  "i < r \<Longrightarrow> 1 \<le> length [(if 1 \<le> i then i - 1 else 0) ..< (if i + 2 < r then i + 2 else r)]"
  by simp arith

lemma window_rows2:
  "i < r \<Longrightarrow> 2 \<le> r
     \<Longrightarrow> 2 \<le> length [(if 1 \<le> i then i - 1 else 0) ..< (if i + 2 < r then i + 2 else r)]"
  by simp arith

lemma window_rows_inside:
  "m \<in> set [(if 1 \<le> i then i - 1 else 0) ..< (if i + 2 < r then i + 2 else r)] \<Longrightarrow> m < r"
  by (simp split: if_splits)

lemma filter_cell_defined:
  assumes rect: "rectangular FData c" and i: "i < length FData" and j: "j < c"
    and two: "2 \<le> length FData * c"
  shows "\<exists>FData'. filter_cell ops FData (i, j) = Some FData'"
proof -
  define ms where "ms = [(if 1 \<le> i then i - 1 else 0) ..< (if i + 2 < length FData then i + 2 else length FData)]"
  define ns where "ns = [(if 1 \<le> j then j - 1 else 0) ..< (if j + 2 < c then j + 2 else c)]"
  from rect i have row: "length (FData ! i) = c" by (simp add: rectangular_def)
  have inside: "\<forall>(m, n) \<in> set (List.product ms ns). m < length FData \<and> n < length (FData ! m)"
  proof (clarify)
    fix m n assume "(m, n) \<in> set (List.product ms ns)"
    then have m: "m \<in> set ms" and n: "n \<in> set ns" by simp_all
    from m have "m < length FData" unfolding ms_def by (rule window_rows_inside)
    moreover from n have "n < c" unfolding ns_def by (rule window_rows_inside)
    ultimately have "m < length FData" and "n < c" .
    with rect show "m < length FData \<and> n < length (FData ! m)" by (simp add: rectangular_def)
  qed
  have lm: "1 \<le> length ms" unfolding ms_def using i by (rule window_rows)
  have ln: "1 \<le> length ns" unfolding ns_def using j by (rule window_rows)
  have "2 \<le> length ms * length ns"
  proof (cases "2 \<le> length FData")
    case True
    with i have "2 \<le> length ms" unfolding ms_def by (rule window_rows2)
    from this ln have "2 * 1 \<le> length ms * length ns" by (rule mult_le_mono)
    then show ?thesis by simp
  next
    case False
    with i have "length FData = 1" by simp
    with two have "2 \<le> c" by simp
    with j have "2 \<le> length ns" unfolding ns_def by (rule window_rows2)
    with lm have "1 * 2 \<le> length ms * length ns" by (rule mult_le_mono)
    then show ?thesis by simp
  qed
  then have "2 \<le> length (List.product ms ns)" by (simp only: length_product)
  from window_defined [OF inside this, of ops] obtain F' where body: "do {
       (ZStack, Window) \<leftarrow> collect ops FData (List.product ms ns) ([], []);
       let mid = (length Window + 1) div 2;
       Window \<leftarrow> sort_front ops Window [0 ..< mid + 1];
       MedValue \<leftarrow> median ops Window mid;
       if ZStack \<noteq> [] then replace FData ZStack MedValue else Some FData
     } = Some F'" ..
  have "filter_cell ops FData (i, j) = do {
       (ZStack, Window) \<leftarrow> collect ops FData (List.product ms ns) ([], []);
       let mid = (length Window + 1) div 2;
       Window \<leftarrow> sort_front ops Window [0 ..< mid + 1];
       MedValue \<leftarrow> median ops Window mid;
       if ZStack \<noteq> [] then replace FData ZStack MedValue else Some FData
     }"
    unfolding filter_cell_def ms_def ns_def using i
    by (simp only: index_def row prod.case if_True Option.bind.bind_lunit Let_def)
  with body show ?thesis by simp
qed

lemma frame_rectangular:
  "frame ops FData FData' \<Longrightarrow> rectangular FData c \<Longrightarrow> rectangular FData' c"
  by (simp add: frame_def rectangular_def)

lemma general_loop_defined:
  "rectangular FData c \<Longrightarrow> 2 \<le> length FData * c
     \<Longrightarrow> \<forall>(i, j) \<in> set ps. i < length FData \<and> j < c
     \<Longrightarrow> \<exists>FData'. general_loop ops FData ps = Some FData'"
proof (induction ps arbitrary: FData)
  case Nil
  show ?case by simp
next
  case (Cons p ps)
  obtain i j where p: "p = (i, j)" by (cases p)
  with Cons.prems(3) have i: "i < length FData" and j: "j < c" by auto
  from filter_cell_defined [OF Cons.prems(1) i j Cons.prems(2), of ops]
  obtain F1 where F1: "filter_cell ops FData (i, j) = Some F1" ..
  have f: "frame ops FData F1" by (rule filter_cell_frame [OF frame_refl F1])
  from f Cons.prems(1) have r: "rectangular F1 c" by (rule frame_rectangular)
  from f have l: "length F1 = length FData" by (simp add: frame_def)
  from Cons.prems(2,3) l have "2 \<le> length F1 * c"
    and "\<forall>(i, j) \<in> set ps. i < length F1 \<and> j < c" by simp_all
  from Cons.IH [OF r this] obtain F' where "general_loop ops F1 ps = Some F'" ..
  with F1 p show ?case by simp
qed

lemma cells_inside:
  "rectangular Data c \<Longrightarrow> \<forall>(i, j) \<in> set (cells Data). i < length Data \<and> j < c"
  by (auto simp: cells_def rectangular_def)

text \<open>
  On an array whose rows all have the same length and that has at least two cells, no
  access of \<open>FilterData\<close> is outside a vector: it returns, and what it returns is within the
  frame.
\<close>

lemma FilterData_defined:
  "rectangular Data c \<Longrightarrow> 2 \<le> length Data * c
     \<Longrightarrow> \<exists>FData. FilterData ops Data = Some FData \<and> frame ops Data FData"
proof -
  assume r: "rectangular Data c" and two: "2 \<le> length Data * c"
  from general_loop_defined [OF r two cells_inside [OF r], of ops]
  obtain R where "FilterData ops Data = Some R" unfolding FilterData_def ..
  then show ?thesis by (auto intro: FilterData_frame)
qed

lemma FilterData_single_cell: "FilterData ops [[x]] = None"
  by (simp add: FilterData_def cells_def filter_cell_def index_def assign_def median_def)

lemma FilterData_short_row: "FilterData ops [[x, y], []] = None"
  by (simp add: FilterData_def cells_def filter_cell_def index_def)

subsection \<open>Where it is not\<close>

text \<open>
  Claim C9: \<open>FilterData\<close> returns an array with the dimensions of \<open>Data\<close> in which every cell
  that is not zero in \<open>Data\<close> has kept its value. The code does not return such an array for
  every \<open>Data\<close>. With a row shorter than its neighbour (a file with an empty line: the rows
  \<open>1;2\<close> and nothing), the window of the cell \<open>(0, 0)\<close> takes its column limits from row 0
  and reads \<open>FData[1][0]\<close> in the empty row 1. With a single cell, the window has one
  element, \<open>mid\<close> is \<open>(1 + 1) / 2 = 1\<close>, and the loop \<open>e <= mid\<close> reads and writes
  \<open>Window[1]\<close>. Both accesses are outside the vector.
\<close>

theorem FilterData_out_of_range:
  "FilterData exact_ops [[1, 2], []] = None \<and> FilterData exact_ops [[5]] = None"
  by (simp add: FilterData_def cells_def filter_cell_def index_def assign_def median_def exact_ops_def)

end
